theory Spec2Isabelle
  imports Complex_Main "HOL-Library.Word"
begin

unbundle bit_operations_syntax

section \<open>Data model\<close>

text \<open>
  The Go struct \<^verbatim>\<open>HyperLogLog\<close> of \<^verbatim>\<open>hyperloglog.go\<close>, field for field, with Go's
  fixed-width unsigned integers as machine words: arithmetic wraps, conversions
  between widths truncate (\<open>ucast\<close>).
\<close>

type_synonym uint8 = "8 word"
type_synonym uint16 = "16 word"
type_synonym uint32 = "32 word"
type_synonym uint64 = "64 word"

record HyperLogLog =
  reg :: "uint8 list"
  m :: uint32
  p :: uint8
  c :: uint64
  z :: uint16

text \<open>
  Errors and run-time panics as values. \<open>InvalidPrecision\<close> is
  \<^verbatim>\<open>errors.New("precision must be between 4 and 16")\<close>, \<open>IncompatiblePrecision\<close> is
  \<^verbatim>\<open>errors.New("precisions must be equal")\<close>, \<open>IndexOutOfRange\<close> is the run-time
  panic of a slice access \<^verbatim>\<open>h.reg[i]\<close> past the end of the slice.
\<close>

datatype error = InvalidPrecision | IncompatiblePrecision | IndexOutOfRange

section \<open>Helpers that are called by the source but defined outside it\<close>

text \<open>
  Modelled from the spec: \<^verbatim>\<open>eb32\<close> is called by \<^verbatim>\<open>Add\<close> and is not defined in
  \<^verbatim>\<open>hyperloglog.go\<close>. The spec (4.2, step 1) and the comment at the call say that
  \<^verbatim>\<open>eb32(x, 32, 32-p)\<close> is the top \<open>p\<close> bits of \<open>x\<close>, bits 31 down to \<open>32 - p\<close>;
  so \<open>eb32 bits hi lo\<close> is the field of \<open>bits\<close> from bit \<open>lo\<close> up to, not
  including, bit \<open>hi\<close>.
\<close>

definition eb32 :: "uint32 \<Rightarrow> uint8 \<Rightarrow> uint8 \<Rightarrow> uint32" where
  "eb32 bits hi lo = take_bit (unat hi - unat lo) (drop_bit (unat lo) bits)"

text \<open>
  Modelled from the spec: \<^verbatim>\<open>clz32\<close> is called by \<^verbatim>\<open>Add\<close> and is not defined in
  \<^verbatim>\<open>hyperloglog.go\<close>. The spec (4.2, step 3): the count of leading zero bits in
  the 32-bit value, here read off from bit 31 downwards. Its result is compared
  with and stored into a register, so it is a \<^verbatim>\<open>uint8\<close>.
\<close>

definition clz32 :: "uint32 \<Rightarrow> uint8" where
  "clz32 w = of_nat (length (takeWhile (\<lambda>i. \<not> bit w i) (rev [0..<32])))"

text \<open>
  Modelled from the spec: \<^verbatim>\<open>countZeros\<close> is called by \<^verbatim>\<open>Merge\<close> and is not defined
  in \<^verbatim>\<open>hyperloglog.go\<close>. The spec (4.4): a full scan of the register array that
  counts the registers equal to 0. The caller narrows the count with
  \<^verbatim>\<open>uint16(...)\<close>.
\<close>

definition countZeros :: "uint8 list \<Rightarrow> nat" where
  "countZeros s = length (filter (\<lambda>v. v = 0) s)"

section \<open>The floating-point kernel\<close>

text \<open>
  \<^verbatim>\<open>doCount\<close> computes in \<^verbatim>\<open>float64\<close>. The operations it uses are parameters of
  the model, over any carrier \<open>'f\<close>: the two helpers \<^verbatim>\<open>calculateEstimate\<close> and
  \<^verbatim>\<open>linearCounting\<close> (called by the source, defined outside it), the conversion
  \<^verbatim>\<open>float64(h.m)\<close>, the conversion of a constant, the arithmetic and comparisons,
  \<^verbatim>\<open>math.Log\<close>, and the conversion \<^verbatim>\<open>uint64(...)\<close> back. Every theorem below that
  mentions \<open>fp\<close> holds for every such kernel, so for IEEE double precision too.
\<close>

record 'f float64_ops =
  calculateEstimate :: "uint8 list \<Rightarrow> 'f"
  linearCounting :: "uint32 \<Rightarrow> uint32 \<Rightarrow> 'f"
  float64_of_uint32 :: "uint32 \<Rightarrow> 'f"
  float64_const :: "rat \<Rightarrow> 'f"
  fmul :: "'f \<Rightarrow> 'f \<Rightarrow> 'f"
  fdiv :: "'f \<Rightarrow> 'f \<Rightarrow> 'f"
  fsub :: "'f \<Rightarrow> 'f \<Rightarrow> 'f"
  fle :: "'f \<Rightarrow> 'f \<Rightarrow> bool"
  flt :: "'f \<Rightarrow> 'f \<Rightarrow> bool"
  math_Log :: "'f \<Rightarrow> 'f"
  uint64_of_float64 :: "'f \<Rightarrow> uint64"

text \<open>
  \<^verbatim>\<open>const two32 = 1 << 32\<close> is an untyped integer constant. In \<^verbatim>\<open>est < two32/30\<close>
  both operands of the division are untyped integer constants, so Go divides them
  as integers before converting the quotient to \<^verbatim>\<open>float64\<close>: the threshold is
  143165576.
\<close>

definition two32 :: int where
  "two32 = 2 ^ 32"

section \<open>The estimator\<close>

text \<open>\<^verbatim>\<open>doCount\<close>, lines 93 to 104, branch for branch.\<close>

definition doCount :: "'f float64_ops \<Rightarrow> HyperLogLog \<Rightarrow> uint64" where
  "doCount fp h =
     (let est = calculateEstimate fp (reg h) in
      if fle fp est (fmul fp (float64_of_uint32 fp (m h)) (float64_const fp (5 / 2))) then
        (let v = (ucast (z h) :: uint32) in
         if v \<noteq> 0 then uint64_of_float64 fp (linearCounting fp (m h) v)
         else uint64_of_float64 fp est)
      else if flt fp est (float64_const fp (of_int (two32 div 30))) then
        uint64_of_float64 fp est
      else
        uint64_of_float64 fp
          (fmul fp (float64_const fp (of_int (- two32)))
             (math_Log fp (fsub fp (float64_const fp 1)
                (fdiv fp est (float64_const fp (of_int two32)))))))"

text \<open>\<^verbatim>\<open>New\<close>, lines 33 to 45. \<^verbatim>\<open>h.z = uint16(h.m)\<close> truncates to 16 bits.\<close>

definition New :: "uint8 \<Rightarrow> error + HyperLogLog" where
  "New precision =
     (if precision > 16 \<or> precision < 4 then Inl InvalidPrecision
      else
        (let m' = (push_bit (unat precision) 1 :: uint32) in
         Inr \<lparr>reg = replicate (unat m') 0, m = m', p = precision, c = 0, z = ucast m'\<rparr>))"

text \<open>\<^verbatim>\<open>Clear\<close>, lines 48 to 52.\<close>

definition Clear :: "HyperLogLog \<Rightarrow> HyperLogLog" where
  "Clear h = h\<lparr>reg := replicate (unat (m h)) 0, z := ucast (m h), c := 0\<rparr>"

text \<open>
  \<^verbatim>\<open>Add\<close>, lines 55 to 69. The argument \<open>x\<close> is the value of \<^verbatim>\<open>item.Sum32()\<close>: the
  hash is computed by the caller's \<^verbatim>\<open>Hash32\<close>. The method returns nothing; the
  model returns the receiver after the call, and \<open>Some IndexOutOfRange\<close> when the
  read of \<^verbatim>\<open>h.reg[i]\<close> in the condition panics (nothing has been written by then).
  Shifts of a \<^verbatim>\<open>uint32\<close> by 32 or more give 0 in Go, as \<open>push_bit\<close> does; \<^verbatim>\<open>32-h.p\<close>
  and \<^verbatim>\<open>h.p-1\<close> are \<^verbatim>\<open>uint8\<close> arithmetic and wrap.
\<close>

definition Add :: "'f float64_ops \<Rightarrow> HyperLogLog \<Rightarrow> uint32 \<Rightarrow> HyperLogLog \<times> error option" where
  "Add fp h x =
     (let i = unat (eb32 x 32 (32 - p h));
          w = push_bit (unat (p h)) x OR push_bit (unat (p h - 1)) 1;
          zeroBits = clz32 w + 1
      in
        if i < length (reg h) then
          (if zeroBits > reg h ! i then
             (let h1 = (if reg h ! i = 0 then h\<lparr>z := z h - 1\<rparr> else h);
                  h2 = h1\<lparr>reg := (reg h1)[i := zeroBits]\<rparr>
              in (h2\<lparr>c := doCount fp h2\<rparr>, None))
           else (h, None))
        else (h, Some IndexOutOfRange))"

text \<open>
  The loop of \<^verbatim>\<open>Merge\<close>, lines 77 to 81: \<open>i\<close> is the loop index, the list argument
  is what is left of \<^verbatim>\<open>other.reg\<close>. An index past the end of \<^verbatim>\<open>h.reg\<close> panics, with
  the registers written so far kept.
\<close>

fun mergeRegs :: "uint8 list \<Rightarrow> nat \<Rightarrow> uint8 list \<Rightarrow> uint8 list \<times> error option" where
  "mergeRegs hr i [] = (hr, None)"
| "mergeRegs hr i (v # vs) =
     (if i < length hr then mergeRegs (if v > hr ! i then hr[i := v] else hr) (Suc i) vs
      else (hr, Some IndexOutOfRange))"

text \<open>
  \<^verbatim>\<open>Merge\<close>, lines 72 to 86: the receiver after the call and the error returned
  (\<open>None\<close> is \<^verbatim>\<open>nil\<close>).
\<close>

definition Merge :: "'f float64_ops \<Rightarrow> HyperLogLog \<Rightarrow> HyperLogLog \<Rightarrow> HyperLogLog \<times> error option" where
  "Merge fp h other =
     (if p h \<noteq> p other then (h, Some IncompatiblePrecision)
      else
        (case mergeRegs (reg h) 0 (reg other) of
           (r, Some e) \<Rightarrow> (h\<lparr>reg := r\<rparr>, Some e)
         | (r, None) \<Rightarrow>
             (let h1 = h\<lparr>reg := r\<rparr>;
                  h2 = h1\<lparr>z := of_nat (countZeros (reg h1))\<rparr>
              in (h2\<lparr>c := doCount fp h2\<rparr>, None))))"

text \<open>\<^verbatim>\<open>Count\<close>, lines 88 to 90.\<close>

definition Count :: "HyperLogLog \<Rightarrow> uint64" where
  "Count h = c h"

section \<open>Well-formed estimators\<close>

text \<open>
  The constraints of the data model: the precision is between 4 and 16, \<open>m\<close> is
  \<open>2 ^ p\<close>, and there are \<open>m\<close> registers.
\<close>

definition valid :: "HyperLogLog \<Rightarrow> bool" where
  "valid h \<longleftrightarrow> 4 \<le> p h \<and> p h \<le> 16 \<and> m h = push_bit (unat (p h)) 1 \<and> length (reg h) = unat (m h)"

text \<open>
  The estimators a program can hold after calls of \<^verbatim>\<open>New\<close>, \<^verbatim>\<open>Add\<close>, \<^verbatim>\<open>Merge\<close> and
  \<^verbatim>\<open>Clear\<close>, starting from what \<^verbatim>\<open>New\<close> returns.
\<close>

inductive reachable :: "'f float64_ops \<Rightarrow> HyperLogLog \<Rightarrow> bool" for fp :: "'f float64_ops" where
  reach_New: "New prec = Inr h \<Longrightarrow> reachable fp h"
| reach_Add: "reachable fp h \<Longrightarrow> reachable fp (fst (Add fp h x))"
| reach_Merge: "reachable fp h \<Longrightarrow> reachable fp other \<Longrightarrow> reachable fp (fst (Merge fp h other))"
| reach_Clear: "reachable fp h \<Longrightarrow> reachable fp (Clear h)"

section \<open>An exact-arithmetic kernel\<close>

text \<open>
  Modelled from the spec: \<^verbatim>\<open>alpha\<close>, \<^verbatim>\<open>calculateEstimate\<close> and \<^verbatim>\<open>linearCounting\<close> are not
  defined in \<^verbatim>\<open>hyperloglog.go\<close>. The spec (4.3): \<open>alpha\<close> is the published constant
  for 16, 32 and 64 registers and \<open>0.7213 / (1 + 1.079 / m)\<close> above; the raw estimate
  is \<open>alpha * m\<^sup>2\<close> over the sum of \<open>2\<close> to the power of minus each register;
  linear counting is \<open>m * ln (m / v)\<close>. Here they are computed over the reals,
  with no rounding: an instance of the kernel at which the generic theorems can be
  applied.
\<close>

definition alpha :: "nat \<Rightarrow> real" where
  "alpha n =
     (if n = 16 then 0.673 else if n = 32 then 0.697 else if n = 64 then 0.709
      else 0.7213 / (1 + 1.079 / real n))"

definition exact :: "real float64_ops" where
  "exact =
     \<lparr>calculateEstimate =
        (\<lambda>s. alpha (length s) * (real (length s))\<^sup>2 / (\<Sum>v\<leftarrow>s. 1 / 2 ^ unat v)),
      linearCounting = (\<lambda>n v. real (unat n) * ln (real (unat n) / real (unat v))),
      float64_of_uint32 = (\<lambda>n. real (unat n)),
      float64_const = of_rat,
      fmul = (*), fdiv = (/), fsub = (-), fle = (\<le>), flt = (<),
      math_Log = ln,
      uint64_of_float64 = (\<lambda>v. of_nat (nat \<lfloor>v\<rfloor>))\<rparr>"

section \<open>The snapshot encoding\<close>

text \<open>
  \<^verbatim>\<open>GobEncode\<close> and \<^verbatim>\<open>GobDecode\<close> call Go's \<^verbatim>\<open>encoding/gob\<close> once per field. The
  fields are unsigned integers and a byte slice, which have the predefined wire
  types \<^verbatim>\<open>uint\<close> (type id 3) and \<^verbatim>\<open>bytes\<close> (type id 5): gob sends no type
  definition for them, and every \<^verbatim>\<open>Encode\<close> call writes one message,
  \<^item> the number of bytes that follow, as an unsigned integer;
  \<^item> the type id, as a signed integer;
  \<^item> a zero byte, the field delta of a top-level value that is not a struct;
  \<^item> the value: an unsigned integer, or a byte count and the bytes.
  This section follows the encoder and the decoder on streams of such messages,
  byte for byte. A message whose type id is negative starts a type definition;
  the model does not follow those and reports \<open>TypeDefinition\<close> there.
\<close>

text \<open>
  The errors of the decoder and the encoder: \<open>EOF\<close> is \<^verbatim>\<open>io.EOF\<close> (the input ends
  where a message or an integer should start), \<open>Truncated\<close> is an input that ends
  inside a message or an integer (\<^verbatim>\<open>io.ErrUnexpectedEOF\<close>, "invalid uint data
  length"), \<open>BadUint\<close> is \<^verbatim>\<open>errBadUint\<close> (a byte count above 8), \<open>BadCount\<close> is
  \<^verbatim>\<open>errBadCount\<close> (a message of \<open>tooBig\<close> bytes or more), \<open>WrongType\<close> is a wire type
  that the local type cannot receive, \<open>NonZeroDelta\<close> is "non-zero delta for
  singleton", \<open>OutOfRange\<close> is "value for ... out of range", \<open>BadLength\<close> is "bad
  slice length", \<open>MessageTooBig\<close> is the encoder's "message too big".
\<close>

datatype gob_error =
    EOF | Truncated | BadUint | BadCount | TypeDefinition | WrongType
  | NonZeroDelta | OutOfRange | BadLength | MessageTooBig

text \<open>
  \<^verbatim>\<open>tooBig\<close> is \<^verbatim>\<open>(1 << 30) << (^uint(0) >> 62)\<close>: \<open>2 ^ 33\<close> where \<^verbatim>\<open>uint\<close> has 64
  bits. \<open>tUint\<close> and \<open>tBytes\<close> are the ids of the two predefined wire types.
\<close>

definition tooBig :: nat where
  "tooBig = 2 ^ 33"

definition tUint :: int where
  "tUint = 3"

definition tBytes :: int where
  "tBytes = 5"

text \<open>
  \<^verbatim>\<open>encodeUint\<close>: a value up to 127 is one byte; a larger one is the negated
  number of its bytes, then the bytes, most significant first, with no leading
  zero byte (\<open>be_bytes\<close>). \<open>be_value\<close> is the decoder's loop
  \<^verbatim>\<open>x = x<<8 | uint64(b)\<close> over the bytes read.
\<close>

fun be_bytes :: "nat \<Rightarrow> uint8 list" where
  "be_bytes n = (if n = 0 then [] else be_bytes (n div 256) @ [of_nat (n mod 256)])"

declare be_bytes.simps [simp del]

definition be_value :: "uint8 list \<Rightarrow> nat" where
  "be_value bs = foldl (\<lambda>x b. x * 256 + unat b) 0 bs"

definition encodeUint :: "nat \<Rightarrow> uint8 list" where
  "encodeUint x =
     (if x \<le> 127 then [of_nat x]
      else of_nat (256 - length (be_bytes x)) # be_bytes x)"

text \<open>\<^verbatim>\<open>encodeInt\<close>: bit 0 says whether the value is complemented, the rest is the value.\<close>

definition encodeInt :: "int \<Rightarrow> uint8 list" where
  "encodeInt i = (if i < 0 then encodeUint (nat (2 * (- i - 1) + 1)) else encodeUint (nat (2 * i)))"

text \<open>
  \<^verbatim>\<open>writeMessage\<close> puts the length in front of a message, and refuses a message of
  \<open>tooBig\<close> bytes or more. \<open>encodeBytes\<close> and \<open>encodeUintValue\<close> are \<^verbatim>\<open>enc.Encode\<close>
  of a \<^verbatim>\<open>[]uint8\<close> and of an unsigned integer of any width.
\<close>

definition writeMessage :: "uint8 list \<Rightarrow> gob_error + uint8 list" where
  "writeMessage message =
     (if length message \<ge> tooBig then Inl MessageTooBig
      else Inr (encodeUint (length message) @ message))"

definition encodeBytes :: "uint8 list \<Rightarrow> gob_error + uint8 list" where
  "encodeBytes b = writeMessage (encodeInt tBytes @ encodeUint 0 @ encodeUint (length b) @ b)"

definition encodeUintValue :: "nat \<Rightarrow> gob_error + uint8 list" where
  "encodeUintValue v = writeMessage (encodeInt tUint @ encodeUint 0 @ encodeUint v)"

text \<open>\<^verbatim>\<open>GobEncode\<close>, lines 107 to 126: the five messages, in the order of the calls.\<close>

definition GobEncode :: "HyperLogLog \<Rightarrow> gob_error + uint8 list" where
  "GobEncode h =
     (case encodeBytes (reg h) of Inl e \<Rightarrow> Inl e | Inr b1 \<Rightarrow>
      (case encodeUintValue (unat (m h)) of Inl e \<Rightarrow> Inl e | Inr b2 \<Rightarrow>
       (case encodeUintValue (unat (p h)) of Inl e \<Rightarrow> Inl e | Inr b3 \<Rightarrow>
        (case encodeUintValue (unat (c h)) of Inl e \<Rightarrow> Inl e | Inr b4 \<Rightarrow>
         (case encodeUintValue (unat (z h)) of Inl e \<Rightarrow> Inl e | Inr b5 \<Rightarrow>
            Inr (b1 @ b2 @ b3 @ b4 @ b5))))))"

text \<open>
  \<^verbatim>\<open>decodeUint\<close> reads one unsigned integer off the front of the input and returns
  it with the rest. A first byte above 127 is the negated count \<open>n\<close> of the bytes
  that follow (\<^verbatim>\<open>n := -int(int8(b))\<close>, which is \<open>256 - b\<close>); leading zero bytes are
  accepted. \<open>toInt\<close> undoes \<open>encodeInt\<close>.
\<close>

definition decodeUint :: "uint8 list \<Rightarrow> gob_error + (nat \<times> uint8 list)" where
  "decodeUint r =
     (case r of
        [] \<Rightarrow> Inl EOF
      | b # rest \<Rightarrow>
          if b \<le> 0x7f then Inr (unat b, rest)
          else
            (let n = 256 - unat b in
             if n > 8 then Inl BadUint
             else if length rest < n then Inl Truncated
             else Inr (be_value (take n rest), drop n rest)))"

definition toInt :: "nat \<Rightarrow> int" where
  "toInt x = (if x mod 2 \<noteq> 0 then - int (x div 2) - 1 else int (x div 2))"

text \<open>
  \<^verbatim>\<open>recvMessage\<close> reads the length and then the message, and returns the message
  and the input after it. \<open>decodeSingle\<close> is one \<^verbatim>\<open>dec.Decode\<close> up to the value: it
  receives a message, reads the type id, checks it against the wire type of the
  local variable, and reads the zero field delta; it returns what is left of the
  message and the input after the message. Bytes of a message after the value
  are dropped by the next \<^verbatim>\<open>Decode\<close>.
\<close>

definition recvMessage :: "uint8 list \<Rightarrow> gob_error + (uint8 list \<times> uint8 list)" where
  "recvMessage r =
     (case decodeUint r of
        Inl e \<Rightarrow> Inl e
      | Inr (nbytes, r') \<Rightarrow>
          if nbytes \<ge> tooBig then Inl BadCount
          else if length r' < nbytes then Inl Truncated
          else Inr (take nbytes r', drop nbytes r'))"

definition decodeSingle :: "int \<Rightarrow> uint8 list \<Rightarrow> gob_error + (uint8 list \<times> uint8 list)" where
  "decodeSingle local r =
     (case recvMessage r of
        Inl e \<Rightarrow> Inl e
      | Inr (buf, r') \<Rightarrow>
          (case decodeUint buf of
             Inl e \<Rightarrow> Inl e
           | Inr (u, buf1) \<Rightarrow>
               if toInt u < 0 then Inl TypeDefinition
               else if toInt u \<noteq> local then Inl WrongType
               else
                 (case decodeUint buf1 of
                    Inl e \<Rightarrow> Inl e
                  | Inr (delta, buf2) \<Rightarrow>
                      if delta \<noteq> 0 then Inl NonZeroDelta else Inr (buf2, r'))))"

text \<open>
  \<^verbatim>\<open>decUint8Slice\<close> decodes into a \<^verbatim>\<open>[]uint8\<close>; \<open>decUint bits\<close> decodes into an
  unsigned integer of \<open>bits\<close> bits and refuses a value that does not fit.
\<close>

definition decUint8Slice :: "uint8 list \<Rightarrow> gob_error + (uint8 list \<times> uint8 list)" where
  "decUint8Slice r =
     (case decodeSingle tBytes r of
        Inl e \<Rightarrow> Inl e
      | Inr (buf, r') \<Rightarrow>
          (case decodeUint buf of
             Inl e \<Rightarrow> Inl e
           | Inr (n, buf') \<Rightarrow>
               if length buf' < n \<or> tooBig \<le> n then Inl BadLength
               else Inr (take n buf', r')))"

definition decUint :: "nat \<Rightarrow> uint8 list \<Rightarrow> gob_error + (nat \<times> uint8 list)" where
  "decUint bits r =
     (case decodeSingle tUint r of
        Inl e \<Rightarrow> Inl e
      | Inr (buf, r') \<Rightarrow>
          (case decodeUint buf of
             Inl e \<Rightarrow> Inl e
           | Inr (v, buf') \<Rightarrow>
               if 2 ^ bits - 1 < v then Inl OutOfRange else Inr (v, r')))"

text \<open>
  \<^verbatim>\<open>GobDecode\<close>, lines 129 to 147: the receiver after the call and the error
  returned. Each \<^verbatim>\<open>dec.Decode(&h.f)\<close> that succeeds has written its field by the
  time the next one runs.
\<close>

definition GobDecode :: "HyperLogLog \<Rightarrow> uint8 list \<Rightarrow> HyperLogLog \<times> gob_error option" where
  "GobDecode h b =
     (case decUint8Slice b of
        Inl e \<Rightarrow> (h, Some e)
      | Inr (v1, r1) \<Rightarrow>
          (let h1 = h\<lparr>reg := v1\<rparr> in
           case decUint 32 r1 of
             Inl e \<Rightarrow> (h1, Some e)
           | Inr (v2, r2) \<Rightarrow>
               (let h2 = h1\<lparr>m := of_nat v2\<rparr> in
                case decUint 8 r2 of
                  Inl e \<Rightarrow> (h2, Some e)
                | Inr (v3, r3) \<Rightarrow>
                    (let h3 = h2\<lparr>p := of_nat v3\<rparr> in
                     case decUint 64 r3 of
                       Inl e \<Rightarrow> (h3, Some e)
                     | Inr (v4, r4) \<Rightarrow>
                         (let h4 = h3\<lparr>c := of_nat v4\<rparr> in
                          case decUint 16 r4 of
                            Inl e \<Rightarrow> (h4, Some e)
                          | Inr (v5, r5) \<Rightarrow> (h4\<lparr>z := of_nat v5\<rparr>, None))))))"

section \<open>Sample estimators\<close>

text \<open>
  Concrete states at which the theorems below are applied: \<open>fresh4\<close> and \<open>fresh5\<close>
  are what \<^verbatim>\<open>New(4)\<close> and \<^verbatim>\<open>New(5)\<close> return, \<open>sample4a\<close> and \<open>sample4b\<close> are
  precision-4 estimators with some registers written, \<open>fresh16\<close> is what
  \<^verbatim>\<open>New(16)\<close> returns, and \<open>inconsistent\<close> is a state that no sequence of \<^verbatim>\<open>New\<close>,
  \<^verbatim>\<open>Add\<close>, \<^verbatim>\<open>Merge\<close> and \<^verbatim>\<open>Clear\<close> produces.
\<close>

definition fresh4 :: HyperLogLog where
  "fresh4 = \<lparr>reg = replicate 16 0, m = 16, p = 4, c = 0, z = 16\<rparr>"

definition fresh5 :: HyperLogLog where
  "fresh5 = \<lparr>reg = replicate 32 0, m = 32, p = 5, c = 0, z = 32\<rparr>"

definition sample4a :: HyperLogLog where
  "sample4a = \<lparr>reg = [1, 0, 3, 0, 0, 2, 0, 0, 0, 0, 0, 0, 0, 0, 0, 5], m = 16, p = 4, c = 4, z = 12\<rparr>"

definition sample4b :: HyperLogLog where
  "sample4b = \<lparr>reg = [0, 2, 1, 0, 0, 4, 0, 0, 0, 0, 0, 0, 0, 0, 7, 0], m = 16, p = 4, c = 4, z = 12\<rparr>"

definition fresh16 :: HyperLogLog where
  "fresh16 = \<lparr>reg = replicate 65536 0, m = 65536, p = 16, c = 0, z = 0\<rparr>"

definition inconsistent :: HyperLogLog where
  "inconsistent = \<lparr>reg = [], m = 1, p = 0, c = 0, z = 1\<rparr>"

section \<open>Facts about well-formed estimators\<close>

lemma valid_fresh4: "valid fresh4"
  by (simp add: valid_def fresh4_def)

lemma valid_sample4a: "valid sample4a"
  by (simp add: valid_def sample4a_def)

lemma valid_sample4b: "valid sample4b"
  by (simp add: valid_def sample4b_def)

lemma valid_fresh16: "valid fresh16"
  by (simp add: valid_def fresh16_def)

lemma valid_p_bounds: "valid h \<Longrightarrow> 4 \<le> unat (p h) \<and> unat (p h) \<le> 16"
  by (simp add: valid_def word_le_nat_alt)

lemma unat_2p:
  assumes "n < 32"
  shows "unat (2 ^ n :: uint32) = 2 ^ n"
proof -
  have "(2 ^ n :: uint32) = of_nat (2 ^ n)" by simp
  moreover have "(2::nat) ^ n < 2 ^ 32" by (rule power_strict_increasing [OF assms]) simp
  ultimately show ?thesis by (simp add: unat_of_nat del: of_nat_power)
qed

lemma valid_m: "valid h \<Longrightarrow> unat (m h) = 2 ^ unat (p h)"
  using valid_p_bounds [of h] by (simp add: valid_def unat_2p)

lemma valid_length: "valid h \<Longrightarrow> length (reg h) = 2 ^ unat (p h)"
  using valid_m [of h] by (simp add: valid_def)

lemma unat_32_minus_p: "valid h \<Longrightarrow> unat (32 - p h) = 32 - unat (p h)"
  using valid_p_bounds [of h] by (simp add: unat_sub word_le_nat_alt)

lemma unat_p_minus_1: "valid h \<Longrightarrow> unat (p h - 1) = unat (p h) - 1"
  using valid_p_bounds [of h] by (simp add: unat_sub word_le_nat_alt)

section \<open>Merge with a different precision\<close>

text \<open>
  C7. When the two precisions differ, \<^verbatim>\<open>Merge\<close> returns the IncompatiblePrecision
  error and the receiver after the call is the receiver before it: its registers,
  its zero-register count, its cached estimate and what \<^verbatim>\<open>Count\<close> returns are
  unchanged. This holds for every pair of states, well-formed or not.
\<close>

theorem Merge_precision_mismatch:
  assumes "p h \<noteq> p other"
  shows "snd (Merge fp h other) = Some IncompatiblePrecision
       \<and> fst (Merge fp h other) = h
       \<and> reg (fst (Merge fp h other)) = reg h
       \<and> z (fst (Merge fp h other)) = z h
       \<and> c (fst (Merge fp h other)) = c h
       \<and> Count (fst (Merge fp h other)) = Count h"
  using assms by (simp add: Merge_def)

theorem Merge_precision_mismatch_witness:
  "p fresh4 \<noteq> p fresh5
   \<and> snd (Merge exact fresh4 fresh5) = Some IncompatiblePrecision
   \<and> fst (Merge exact fresh4 fresh5) = fresh4
   \<and> reg (fst (Merge exact fresh4 fresh5)) = reg fresh4
   \<and> z (fst (Merge exact fresh4 fresh5)) = z fresh4
   \<and> c (fst (Merge exact fresh4 fresh5)) = c fresh4
   \<and> Count (fst (Merge exact fresh4 fresh5)) = Count fresh4"
proof -
  have ne: "p fresh4 \<noteq> p fresh5" by (simp add: fresh4_def fresh5_def)
  show ?thesis using ne Merge_precision_mismatch [OF ne, of exact] by blast
qed

section \<open>Merge of estimators of equal precision\<close>

lemma mergeRegs_nth:
  "i + length vs \<le> length hr \<Longrightarrow>
     snd (mergeRegs hr i vs) = None
   \<and> length (fst (mergeRegs hr i vs)) = length hr
   \<and> (\<forall>j<length hr. fst (mergeRegs hr i vs) ! j =
          (if i \<le> j \<and> j < i + length vs then max (hr ! j) (vs ! (j - i)) else hr ! j))"
proof (induction vs arbitrary: hr i)
  case Nil
  then show ?case by auto
next
  case (Cons v vs)
  let ?hr = "if v > hr ! i then hr[i := v] else hr"
  have len: "length ?hr = length hr" by simp
  have i_lt: "i < length hr" using Cons.prems by simp
  have step: "mergeRegs hr i (v # vs) = mergeRegs ?hr (Suc i) vs"
    using i_lt by simp
  have bound: "Suc i + length vs \<le> length ?hr" using Cons.prems by simp
  note ih = Cons.IH [OF bound]
  have at_i: "?hr ! i = max (hr ! i) v" using i_lt by (auto simp: max_def)
  have other: "\<And>j. j \<noteq> i \<Longrightarrow> ?hr ! j = hr ! j" by simp
  show ?case
  proof (intro conjI allI impI)
    show "snd (mergeRegs hr i (v # vs)) = None" using ih step by simp
    show "length (fst (mergeRegs hr i (v # vs))) = length hr" using ih step len by simp
  next
    fix j assume j: "j < length hr"
    then have "fst (mergeRegs ?hr (Suc i) vs) ! j =
        (if Suc i \<le> j \<and> j < Suc i + length vs then max (?hr ! j) (vs ! (j - Suc i)) else ?hr ! j)"
      using ih len by simp
    then show "fst (mergeRegs hr i (v # vs)) ! j =
        (if i \<le> j \<and> j < i + length (v # vs) then max (hr ! j) ((v # vs) ! (j - i)) else hr ! j)"
      unfolding step using at_i other [of j]
      by (cases "j = i") (auto simp: Suc_diff_le nth_Cons' split: if_splits)
  qed
qed

lemma mergeRegs_eq_length:
  assumes "length vs = length hr"
  shows "mergeRegs hr 0 vs = (map2 max hr vs, None)"
proof -
  have b: "0 + length vs \<le> length hr" using assms by simp
  note n = mergeRegs_nth [OF b]
  have "fst (mergeRegs hr 0 vs) = map2 max hr vs"
    using n assms by (intro nth_equalityI) auto
  moreover have "snd (mergeRegs hr 0 vs) = None" using n by simp
  ultimately show ?thesis by (simp add: prod_eq_iff)
qed

lemma countZeros_replicate: "countZeros (replicate n 0) = n"
  by (simp add: countZeros_def)

lemma map2_max_replicate: "map2 max (replicate n (0::uint8)) (replicate n 0) = replicate n 0"
  by simp

lemma doCount_cong:
  "reg h = reg h' \<Longrightarrow> m h = m h' \<Longrightarrow> z h = z h' \<Longrightarrow> doCount fp h = doCount fp h'"
  by (simp add: doCount_def Let_def)

lemma Merge_valid:
  assumes "valid h" "valid other" "p h = p other"
  shows "Merge fp h other =
    (h\<lparr>reg := map2 max (reg h) (reg other),
       z := of_nat (countZeros (map2 max (reg h) (reg other))),
       c := doCount fp (h\<lparr>reg := map2 max (reg h) (reg other),
                          z := of_nat (countZeros (map2 max (reg h) (reg other)))\<rparr>)\<rparr>, None)"
proof -
  have "length (reg other) = length (reg h)" using assms by (simp add: valid_def)
  then have "mergeRegs (reg h) 0 (reg other) = (map2 max (reg h) (reg other), None)"
    by (rule mergeRegs_eq_length)
  then show ?thesis using assms(3) by (simp add: Merge_def Let_def)
qed

lemma Merge_preserves_valid:
  assumes "valid h" "valid other" "p h = p other"
  shows "valid (fst (Merge fp h other))"
  using assms unfolding Merge_valid [OF assms] by (simp add: valid_def)

lemma map2_max_commute: "map2 max xs ys = map2 max ys (xs :: uint8 list)"
  by (induction xs ys rule: list_induct2') (simp_all add: max.commute)

lemma map2_max_assoc: "map2 max (map2 max xs ys) zs = map2 max xs (map2 max ys (zs :: uint8 list))"
proof (induction xs arbitrary: ys zs)
  case Nil
  then show ?case by simp
next
  case (Cons x xs)
  then show ?case by (cases ys; cases zs) (simp_all add: max.assoc)
qed

text \<open>
  C4. For well-formed estimators \<open>A\<close>, \<open>B\<close>, \<open>C\<close> of equal precision, both
  \<^verbatim>\<open>A.Merge(B)\<close> and \<^verbatim>\<open>B.Merge(A)\<close> return \<^verbatim>\<open>nil\<close>, leave the same register array in
  their receivers and the same value for \<^verbatim>\<open>Count\<close>; and merging \<open>C\<close> into the
  merge of \<open>A\<close> and \<open>B\<close> leaves the same registers as merging into \<open>A\<close> the merge
  of \<open>B\<close> and \<open>C\<close>.
\<close>

theorem Merge_commutative_associative:
  assumes "valid A" "valid B" "valid C" "p A = p B" "p B = p C"
  shows "snd (Merge fp A B) = None \<and> snd (Merge fp B A) = None
       \<and> reg (fst (Merge fp A B)) = reg (fst (Merge fp B A))
       \<and> Count (fst (Merge fp A B)) = Count (fst (Merge fp B A))
       \<and> reg (fst (Merge fp (fst (Merge fp A B)) C)) = reg (fst (Merge fp A (fst (Merge fp B C))))"
proof -
  have mAB: "m A = m B" using assms by (simp add: valid_def)
  note ab = Merge_valid [OF assms(1,2,4), of fp]
  note ba = Merge_valid [OF assms(2,1) assms(4) [symmetric], of fp]
  have comm: "map2 max (reg A) (reg B) = map2 max (reg B) (reg A)" by (rule map2_max_commute)
  have regs: "reg (fst (Merge fp A B)) = reg (fst (Merge fp B A))"
    unfolding ab ba using comm by simp
  have cnt: "Count (fst (Merge fp A B)) = Count (fst (Merge fp B A))"
    unfolding ab ba Count_def using comm mAB by (simp add: doCount_cong)
  have vAB: "valid (fst (Merge fp A B))" by (rule Merge_preserves_valid [OF assms(1,2,4)])
  have vBC: "valid (fst (Merge fp B C))" by (rule Merge_preserves_valid [OF assms(2,3,5)])
  have pAB: "p (fst (Merge fp A B)) = p C" unfolding ab using assms by simp
  have pBC: "p A = p (fst (Merge fp B C))"
    unfolding Merge_valid [OF assms(2,3,5), of fp] using assms by simp
  have assoc: "reg (fst (Merge fp (fst (Merge fp A B)) C)) = reg (fst (Merge fp A (fst (Merge fp B C))))"
    unfolding Merge_valid [OF vAB assms(3) pAB, of fp] Merge_valid [OF assms(1) vBC pBC, of fp]
    unfolding ab Merge_valid [OF assms(2,3,5), of fp]
    by (simp add: map2_max_assoc)
  show ?thesis using regs cnt assoc ab ba by simp
qed

theorem Merge_commutative_associative_witness:
  "valid sample4a \<and> valid sample4b \<and> valid fresh4
   \<and> p sample4a = p sample4b \<and> p sample4b = p fresh4
   \<and> snd (Merge exact sample4a sample4b) = None \<and> snd (Merge exact sample4b sample4a) = None
   \<and> reg (fst (Merge exact sample4a sample4b)) = reg (fst (Merge exact sample4b sample4a))
   \<and> Count (fst (Merge exact sample4a sample4b)) = Count (fst (Merge exact sample4b sample4a))
   \<and> reg (fst (Merge exact (fst (Merge exact sample4a sample4b)) fresh4))
     = reg (fst (Merge exact sample4a (fst (Merge exact sample4b fresh4))))"
proof -
  have pab: "p sample4a = p sample4b" by (simp add: sample4a_def sample4b_def)
  have pbc: "p sample4b = p fresh4" by (simp add: sample4b_def fresh4_def)
  show ?thesis
    using pab pbc valid_sample4a valid_sample4b valid_fresh4
      Merge_commutative_associative [OF valid_sample4a valid_sample4b valid_fresh4 pab pbc, of exact]
    by blast
qed

section \<open>Construction\<close>

lemma New_InvalidPrecision_iff: "New prec = Inl InvalidPrecision \<longleftrightarrow> prec < 4 \<or> 16 < prec"
  by (auto simp: New_def Let_def)

lemma New_Inr:
  "\<not> (prec > 16 \<or> prec < 4) \<Longrightarrow>
   New prec = Inr \<lparr>reg = replicate (unat (push_bit (unat prec) 1 :: uint32)) 0,
      m = push_bit (unat prec) 1, p = prec, c = 0, z = ucast (push_bit (unat prec) 1 :: uint32)\<rparr>"
  by (simp add: New_def Let_def)

lemma New_valid:
  assumes "4 \<le> prec" "prec \<le> 16"
  shows "\<exists>h. New prec = Inr h \<and> valid h \<and> p h = prec \<and> reg h = replicate (2 ^ unat prec) 0
     \<and> unat (m h) = 2 ^ unat prec \<and> z h = ucast (m h) \<and> c h = 0 \<and> Count h = 0"
proof -
  have n: "\<not> (prec > 16 \<or> prec < 4)" using assms by auto
  have "unat prec \<le> 16" using assms(2) by (simp add: word_le_nat_alt)
  then have u: "unat (2 ^ unat prec :: uint32) = 2 ^ unat prec" by (intro unat_2p) simp
  show ?thesis unfolding New_Inr [OF n] using assms u by (simp add: valid_def Count_def)
qed

lemma New_below_16:
  assumes "4 \<le> prec" "prec \<le> 15"
  shows "\<exists>h. New prec = Inr h \<and> unat (z h) = unat (m h) \<and> unat (z h) = countZeros (reg h)"
proof -
  have n: "\<not> (prec > 16 \<or> prec < 4)" using assms by (auto simp: word_le_nat_alt word_less_nat_alt)
  have le: "unat prec \<le> 15" using assms(2) by (simp add: word_le_nat_alt)
  then have u: "unat (2 ^ unat prec :: uint32) = 2 ^ unat prec" by (intro unat_2p) simp
  have "(2::nat) ^ unat prec \<le> 2 ^ 15" using le by (rule power_increasing) simp
  then have lt: "(2::nat) ^ unat prec < 65536" by simp
  have "unat (ucast (2 ^ unat prec :: uint32) :: uint16) = 2 ^ unat prec"
    using lt u le by (simp add: unsigned_ucast_eq take_bit_nat_eq_self)
  then show ?thesis unfolding New_Inr [OF n] using u by (simp add: countZeros_replicate)
qed

text \<open>
  C8. \<^verbatim>\<open>New\<close> returns the InvalidPrecision error exactly for a precision outside
  4 to 16 (\<open>New_InvalidPrecision_iff\<close>), and for every precision from 4 to 16 an
  estimator with \<open>2 ^ precision\<close> zero registers and a cached estimate of 0
  (\<open>New_valid\<close>). Its zero-register count is \<^verbatim>\<open>uint16(h.m)\<close>: equal to \<open>m\<close> up to
  precision 15 (\<open>New_below_16\<close>), but at precision 16 the count of 65536 does not
  fit 16 bits, and the estimator that \<^verbatim>\<open>New(16)\<close> returns has a zero-register
  count of 0 next to 65536 registers that are all zero.
\<close>

theorem New_16_zero_count:
  "New 16 = Inr fresh16 \<and> z fresh16 = 0 \<and> unat (m fresh16) = 65536
   \<and> length (reg fresh16) = 65536 \<and> countZeros (reg fresh16) = 65536"
proof -
  have t1: "(push_bit (unat (16::uint8)) 1 :: uint32) = 65536" by simp
  have t2: "unat (65536::uint32) = 65536" by simp
  have t3: "(ucast (65536::uint32) :: uint16) = 0" by simp
  have "\<not> ((16::uint8) > 16 \<or> (16::uint8) < 4)" by simp
  from New_Inr [OF this] have "New 16 = Inr fresh16" unfolding t1 t2 t3 fresh16_def .
  moreover have "z fresh16 = 0" by (simp add: fresh16_def)
  moreover have "unat (m fresh16) = 65536" by (simp add: fresh16_def)
  moreover have "length (reg fresh16) = 65536" by (simp add: fresh16_def)
  moreover have "countZeros (reg fresh16) = 65536" by (simp add: fresh16_def countZeros_replicate)
  ultimately show ?thesis by blast
qed

section \<open>Add\<close>

lemma eb32_top:
  assumes "valid h"
  shows "unat (eb32 x 32 (32 - p h)) = unat x div 2 ^ (32 - unat (p h))"
proof -
  have b: "4 \<le> unat (p h) \<and> unat (p h) \<le> 16" using assms by (rule valid_p_bounds)
  have "eb32 x 32 (32 - p h) = take_bit (unat (p h)) (drop_bit (32 - unat (p h)) x)"
    using b by (simp add: eb32_def unat_32_minus_p [OF assms])
  also have "\<dots> = drop_bit (32 - unat (p h)) x"
    using b by (intro bit_word_eqI) (auto simp: bit_take_bit_iff bit_drop_bit_eq dest: bit_imp_le_length)
  finally have e: "eb32 x 32 (32 - p h) = drop_bit (32 - unat (p h)) x" .
  have u: "unat (drop_bit (32 - unat (p h)) x) = unat x div 2 ^ (32 - unat (p h))"
    unfolding unat_drop_bit_eq by (simp only: drop_bit_eq_div)
  show ?thesis by (simp only: e u)
qed

lemma top_bits_lt:
  assumes "k \<le> 32"
  shows "unat (x :: uint32) div 2 ^ (32 - k) < 2 ^ k"
proof -
  have "unat x < 2 ^ 32" using unsigned_less [of x] by simp
  also have "(2::nat) ^ 32 = 2 ^ k * 2 ^ (32 - k)" using assms by (simp flip: power_add)
  finally show ?thesis by (simp add: less_mult_imp_div_less)
qed

lemma valid_index:
  assumes "valid h"
  shows "unat (eb32 x 32 (32 - p h)) < length (reg h)"
  using top_bits_lt [of "unat (p h)" x] valid_p_bounds [OF assms]
  by (simp add: eb32_top [OF assms] valid_length [OF assms])

lemma clz32_le: "length (takeWhile (\<lambda>i. \<not> bit w i) (rev [0..<32])) \<le> 32"
  using length_takeWhile_le [of "\<lambda>i. \<not> bit w i" "rev [0..<32]"] by simp

lemma rank_nonzero: "clz32 w + 1 \<noteq> 0"
proof -
  let ?n = "length (takeWhile (\<lambda>i. \<not> bit w i) (rev [0..<32]))"
  have "?n \<le> 32" by (rule clz32_le)
  then have "unat (of_nat ?n + 1 :: uint8) = ?n + 1"
    by (simp add: unat_word_ariths unat_of_nat)
  then have "unat (clz32 w + 1) \<noteq> 0" by (simp add: clz32_def)
  then show ?thesis by (metis unat_0)
qed

lemma guard_word_bits:
  assumes "valid h"
  shows "bit (push_bit (unat (p h)) x OR push_bit (unat (p h - 1)) (1::uint32)) n
     \<longleftrightarrow> n < 32 \<and> (n = unat (p h) - 1 \<or> unat (p h) \<le> n \<and> bit x (n - unat (p h)))"
  using valid_p_bounds [OF assms]
  by (auto simp: bit_or_iff bit_push_bit_iff unat_p_minus_1 [OF assms] bit_1_iff bit_exp_iff
      dest: bit_imp_le_length)

lemma takeWhile_stops:
  assumes "k < length xs" "\<not> P (xs ! k)"
  shows "length (takeWhile P xs) \<le> k"
proof (rule ccontr)
  assume "\<not> length (takeWhile P xs) \<le> k"
  then have lt: "k < length (takeWhile P xs)" by simp
  then have "takeWhile P xs ! k \<in> set (takeWhile P xs)" by (rule nth_mem)
  then have "P (takeWhile P xs ! k)" by (rule set_takeWhileD [THEN conjunct2])
  then show False using assms(2) takeWhile_nth [OF lt] by simp
qed

lemma clz32_guard:
  assumes "k < 32" "bit w k"
  shows "unat (clz32 w) \<le> 31 - k"
proof -
  let ?xs = "rev [0..<32]"
  have nth: "?xs ! (31 - k) = k" using assms(1) by (simp add: rev_nth)
  have "length (takeWhile (\<lambda>i. \<not> bit w i) ?xs) \<le> 31 - k"
    by (rule takeWhile_stops) (use assms nth in simp_all)
  then show ?thesis by (simp add: clz32_def unat_of_nat)
qed

lemma rank_bounds:
  assumes "valid h"
  shows "1 \<le> unat (clz32 (push_bit (unat (p h)) x OR push_bit (unat (p h - 1)) 1) + 1)
       \<and> unat (clz32 (push_bit (unat (p h)) x OR push_bit (unat (p h - 1)) 1) + 1) \<le> 33 - unat (p h)"
proof -
  let ?w = "push_bit (unat (p h)) x OR push_bit (unat (p h - 1)) (1::uint32)"
  have b: "4 \<le> unat (p h) \<and> unat (p h) \<le> 16" using assms by (rule valid_p_bounds)
  have lt: "unat (p h) - 1 < 32" using b by linarith
  then have "bit ?w (unat (p h) - 1)" using guard_word_bits [OF assms, of x "unat (p h) - 1"] by simp
  then have "unat (clz32 ?w) \<le> 31 - (unat (p h) - 1)" by (rule clz32_guard [OF lt])
  then have le: "unat (clz32 ?w) \<le> 32 - unat (p h)" using b by linarith
  then have "unat (clz32 ?w + 1) = unat (clz32 ?w) + 1"
    by (simp add: unat_word_ariths)
  then show ?thesis using le b by linarith
qed

text \<open>
  C2. For a well-formed estimator \<open>h\<close> and a hash \<open>x\<close>, let \<open>i\<close> be the top \<open>p\<close>
  bits of \<open>x\<close>, \<open>w\<close> the word \<open>x\<close> shifted left by \<open>p\<close> with bit \<open>p - 1\<close> set, and
  \<open>rank\<close> one more than the leading zeros of \<open>w\<close>. Then \<open>i\<close> is an index of the
  register array; bit \<open>n\<close> of \<open>w\<close> is bit \<open>n - p\<close> of \<open>x\<close> from \<open>p\<close> upwards, the guard
  at \<open>p - 1\<close>, and clear below; and \<^verbatim>\<open>Add\<close> does not panic and, when \<open>rank\<close> exceeds
  register \<open>i\<close>, decrements the zero-register count if that register was 0, stores
  \<open>rank\<close> in it, and stores \<^verbatim>\<open>doCount\<close> of the updated estimator as the cached
  estimate; otherwise it leaves the estimator as it was.
\<close>

theorem Add_spec:
  assumes "valid h"
    and "i = unat x div 2 ^ (32 - unat (p h))"
    and "w = push_bit (unat (p h)) x OR push_bit (unat (p h) - 1) 1"
    and "rank = clz32 w + 1"
  shows "i < length (reg h)
       \<and> (\<forall>n. bit w n \<longleftrightarrow> n < 32 \<and> (n = unat (p h) - 1 \<or> unat (p h) \<le> n \<and> bit x (n - unat (p h))))
       \<and> Add fp h x =
           (if rank > reg h ! i then
              (let h' = h\<lparr>z := (if reg h ! i = 0 then z h - 1 else z h),
                          reg := (reg h)[i := rank]\<rparr>
               in (h'\<lparr>c := doCount fp h'\<rparr>, None))
            else (h, None))"
proof -
  have i: "unat (eb32 x 32 (32 - p h)) = i" using assms(2) eb32_top [OF assms(1)] by simp
  have w: "push_bit (unat (p h)) x OR push_bit (unat (p h - 1)) 1 = w"
    using assms(3) unat_p_minus_1 [OF assms(1)] by simp
  have lt: "i < length (reg h)" using valid_index [OF assms(1), of x] i by simp
  have bits: "\<forall>n. bit w n \<longleftrightarrow> n < 32 \<and> (n = unat (p h) - 1 \<or> unat (p h) \<le> n \<and> bit x (n - unat (p h)))"
    using guard_word_bits [OF assms(1), of x] unfolding w by simp
  have add: "Add fp h x =
           (if rank > reg h ! i then
              (let h' = h\<lparr>z := (if reg h ! i = 0 then z h - 1 else z h),
                          reg := (reg h)[i := rank]\<rparr>
               in (h'\<lparr>c := doCount fp h'\<rparr>, None))
            else (h, None))"
    unfolding Add_def i w using lt assms(4) by (auto simp: Let_def)
  show ?thesis using lt bits add by blast
qed

theorem Add_spec_witness:
  "valid sample4a
   \<and> (1::nat) = unat (0x12345678::uint32) div 2 ^ (32 - unat (p sample4a))
   \<and> (0x23456788::uint32) = push_bit (unat (p sample4a)) 0x12345678 OR push_bit (unat (p sample4a) - 1) 1
   \<and> (3::uint8) = clz32 0x23456788 + 1
   \<and> 1 < length (reg sample4a)
   \<and> (\<forall>n. bit (0x23456788::uint32) n \<longleftrightarrow>
          n < 32 \<and> (n = unat (p sample4a) - 1 \<or> unat (p sample4a) \<le> n \<and> bit (0x12345678::uint32) (n - unat (p sample4a))))
   \<and> Add exact sample4a 0x12345678 =
           (if 3 > reg sample4a ! 1 then
              (let h' = sample4a\<lparr>z := (if reg sample4a ! 1 = 0 then z sample4a - 1 else z sample4a),
                          reg := (reg sample4a)[1 := 3]\<rparr>
               in (h'\<lparr>c := doCount exact h'\<rparr>, None))
            else (sample4a, None))"
proof -
  have i: "(1::nat) = unat (0x12345678::uint32) div 2 ^ (32 - unat (p sample4a))"
    by (simp add: sample4a_def)
  have w: "(0x23456788::uint32) = push_bit (unat (p sample4a)) 0x12345678 OR push_bit (unat (p sample4a) - 1) 1"
    by (simp add: sample4a_def)
  have r: "(3::uint8) = clz32 0x23456788 + 1"
    by code_simp
  show ?thesis
    using valid_sample4a i w r Add_spec [OF valid_sample4a i w r, of exact] by blast
qed

text \<open>
  C9. Adding the same hash a second time returns the estimator that the first
  \<^verbatim>\<open>Add\<close> left, all fields unchanged; so after any number \<open>n + 1\<close> of \<^verbatim>\<open>Add\<close>s of
  one hash the estimator is the one the first of them left, and \<^verbatim>\<open>Count\<close> is what
  it was after the first of them.
\<close>

theorem Add_idempotent:
  "Add fp (fst (Add fp h x)) x = Add fp h x
   \<and> ((\<lambda>s. fst (Add fp s x)) ^^ Suc n) h = fst (Add fp h x)
   \<and> Count (((\<lambda>s. fst (Add fp s x)) ^^ Suc n) h) = Count (fst (Add fp h x))"
proof -
  have once: "Add fp (fst (Add fp h x)) x = Add fp h x" for h :: HyperLogLog
    by (auto simp: Add_def Let_def)
  have "((\<lambda>s. fst (Add fp s x)) ^^ Suc n) h = fst (Add fp h x)"
  proof (induction n)
    case 0
    show ?case by simp
  next
    case (Suc n)
    then show ?case using once by simp
  qed
  then show ?thesis using once by simp
qed

section \<open>The zero-register count\<close>

lemma countZeros_update:
  assumes "i < length xs" "v \<noteq> 0"
  shows "countZeros (xs[i := v]) = (if xs ! i = 0 then countZeros xs - 1 else countZeros xs)"
  using assms
proof (induction xs arbitrary: i)
  case Nil
  then show ?case by simp
next
  case (Cons a xs)
  show ?case
  proof (cases i)
    case 0
    then show ?thesis using Cons.prems by (simp add: countZeros_def)
  next
    case (Suc j)
    then have j: "j < length xs" using Cons.prems by simp
    have pos: "xs ! j = 0 \<Longrightarrow> 0 < countZeros xs"
      using j by (auto simp: countZeros_def filter_empty_conv in_set_conv_nth)
    show ?thesis using Cons.IH [OF j Cons.prems(2)] Suc pos
      by (auto simp: countZeros_def)
  qed
qed

lemma countZeros_pos: "i < length xs \<Longrightarrow> xs ! i = 0 \<Longrightarrow> 0 < countZeros xs"
  by (auto simp: countZeros_def filter_empty_conv in_set_conv_nth)

lemma Add_zero_count:
  assumes "unat (z h) = countZeros (reg h)"
  shows "unat (z (fst (Add fp h x))) = countZeros (reg (fst (Add fp h x)))"
proof -
  let ?i = "unat (eb32 x 32 (32 - p h))"
  let ?r = "clz32 (push_bit (unat (p h)) x OR push_bit (unat (p h - 1)) 1) + 1"
  have nz: "?r \<noteq> 0" by (rule rank_nonzero)
  show ?thesis
  proof (cases "?i < length (reg h) \<and> ?r > reg h ! ?i")
    case False
    then show ?thesis using assms by (auto simp: Add_def Let_def)
  next
    case True
    then have lt: "?i < length (reg h)" by simp
    note upd = countZeros_update [OF lt nz]
    show ?thesis
    proof (cases "reg h ! ?i = 0")
      case True
      then have "0 < countZeros (reg h)" using lt by (intro countZeros_pos)
      then have "z h \<noteq> 0" using assms by (metis less_numeral_extra(3) unat_0)
      then have "unat (z h - 1) = unat (z h) - 1" by (rule unat_minus_one)
      then show ?thesis using True \<open>?i < length (reg h) \<and> ?r > reg h ! ?i\<close> upd assms
        by (simp add: Add_def Let_def)
    next
      case False
      then show ?thesis using \<open>?i < length (reg h) \<and> ?r > reg h ! ?i\<close> upd assms
        by (simp add: Add_def Let_def)
    qed
  qed
qed

lemma unat_of_nat_uint16: "n < 65536 \<Longrightarrow> unat (of_nat n :: uint16) = n"
  by (simp add: unat_of_nat)

lemma countZeros_le: "countZeros xs \<le> length xs"
  by (simp add: countZeros_def)

lemma valid_below_16:
  assumes "valid h" "p h \<le> 15"
  shows "unat (m h) < 65536"
proof -
  have le: "unat (p h) \<le> 15" using assms(2) by (simp add: word_le_nat_alt)
  have "(2::nat) ^ unat (p h) \<le> 2 ^ 15" using le by (rule power_increasing) simp
  then show ?thesis using valid_m [OF assms(1)] by simp
qed

lemma Clear_zero_count:
  assumes "valid h" "p h \<le> 15"
  shows "unat (z (Clear h)) = countZeros (reg (Clear h))"
  using valid_below_16 [OF assms]
  by (simp add: Clear_def countZeros_replicate unsigned_ucast_eq take_bit_nat_eq_self)

lemma Merge_zero_count:
  assumes "valid h" "valid other" "p h = p other" "p h \<le> 15"
  shows "unat (z (fst (Merge fp h other))) = countZeros (reg (fst (Merge fp h other)))"
proof -
  have "countZeros (map2 max (reg h) (reg other)) \<le> length (reg h)"
    using countZeros_le [of "map2 max (reg h) (reg other)"] by simp
  then have "countZeros (map2 max (reg h) (reg other)) < 65536"
    using valid_below_16 [OF assms(1,4)] assms(1) by (simp add: valid_def)
  then show ?thesis unfolding Merge_valid [OF assms(1-3)] by (simp add: unat_of_nat_uint16)
qed

text \<open>
  What \<^verbatim>\<open>Count\<close> returns after two estimators with no item added are merged,
  computed with the exact kernel: 0 at precision 4, where the zero-register count
  is 16 and \<^verbatim>\<open>doCount\<close> takes the linear-counting branch; 47270 at precision 16,
  where the zero-register count is stored as 0 and \<^verbatim>\<open>doCount\<close> returns the raw
  estimate.
\<close>

lemma calculateEstimate_exact_zero:
  "calculateEstimate exact (replicate n 0) = alpha n * (real n)\<^sup>2 / real n"
  by (simp add: exact_def sum_list_replicate map_replicate_const)

lemma est16: "alpha 65536 * (real 65536)\<^sup>2 / real 65536 = 15489799553024 / 327685395"
  by (simp add: alpha_def power2_eq_square)

lemma est16_floor: "\<lfloor>15489799553024 / 327685395 :: real\<rfloor> = 47270"
  by (simp add: floor_eq_iff)

lemma doCount_exact_fresh16:
  "doCount exact fresh16 = 47270"
proof -
  have r: "reg fresh16 = replicate 65536 0" by (simp add: fresh16_def)
  have e: "calculateEstimate exact (reg fresh16) = 15489799553024 / 327685395"
    unfolding r calculateEstimate_exact_zero [of 65536] using est16 by simp
  have mz: "m fresh16 = 65536" "z fresh16 = 0" by (simp_all add: fresh16_def)
  have sel: "fle exact = (\<le>)" "fmul exact = (*)" "float64_of_uint32 exact = (\<lambda>n. real (unat n))"
    "float64_const exact = of_rat" "uint64_of_float64 exact = (\<lambda>v. of_nat (nat \<lfloor>v\<rfloor>))"
    by (simp_all add: exact_def)
  show ?thesis
    unfolding doCount_def e mz sel Let_def using est16_floor by (simp add: of_rat_divide)
qed

lemma Merge_fresh16_Count_exact: "Count (fst (Merge exact fresh16 fresh16)) = 47270"
proof -
  have r: "map2 max (reg fresh16) (reg fresh16) = reg fresh16"
    by (simp add: fresh16_def map2_max_replicate)
  have zz: "(of_nat (countZeros (reg fresh16)) :: uint16) = z fresh16"
    by (simp add: fresh16_def countZeros_replicate)
  have "doCount exact (fresh16\<lparr>reg := reg fresh16, z := z fresh16\<rparr>) = doCount exact fresh16"
    by (rule doCount_cong) simp_all
  then show ?thesis
    unfolding Merge_valid [OF valid_fresh16 valid_fresh16 refl] r zz Count_def
    by (simp add: doCount_exact_fresh16)
qed

lemma doCount_exact_fresh4: "doCount exact fresh4 = 0"
proof -
  have e: "calculateEstimate exact (reg fresh4) = alpha 16 * (real 16)\<^sup>2 / real 16"
    using calculateEstimate_exact_zero [of 16] by (simp add: fresh4_def)
  have mz: "m fresh4 = 16" "z fresh4 = 16" by (simp_all add: fresh4_def)
  have sel: "fle exact = (\<le>)" "fmul exact = (*)" "float64_of_uint32 exact = (\<lambda>n. real (unat n))"
    "float64_const exact = of_rat" "uint64_of_float64 exact = (\<lambda>v. of_nat (nat \<lfloor>v\<rfloor>))"
    "linearCounting exact = (\<lambda>n v. real (unat n) * ln (real (unat n) / real (unat v)))"
    by (simp_all add: exact_def)
  show ?thesis
    unfolding doCount_def e mz sel Let_def by (simp add: alpha_def power2_eq_square of_rat_divide)
qed

lemma Merge_fresh4_Count_exact: "Count (fst (Merge exact fresh4 fresh4)) = 0"
proof -
  have r: "map2 max (reg fresh4) (reg fresh4) = reg fresh4"
    by (simp add: fresh4_def)
  have zz: "(of_nat (countZeros (reg fresh4)) :: uint16) = z fresh4"
    by (simp add: fresh4_def countZeros_replicate)
  have "doCount exact (fresh4\<lparr>reg := reg fresh4, z := z fresh4\<rparr>) = doCount exact fresh4"
    by (rule doCount_cong) simp_all
  then show ?thesis
    unfolding Merge_valid [OF valid_fresh4 valid_fresh4 refl] r zz Count_def
    by (simp add: doCount_exact_fresh4)
qed

text \<open>
  C6. \<^verbatim>\<open>Add\<close> keeps the zero-register count equal to the number of zero registers
  (\<open>Add_zero_count\<close>), and \<^verbatim>\<open>Clear\<close> and \<^verbatim>\<open>Merge\<close> make it so up to precision 15
  (\<open>Clear_zero_count\<close>, \<open>Merge_zero_count\<close>; \<open>zero_count_below_16\<close> below has it
  for every reachable estimator of precision up to 15, and \<open>zero_count_word\<close> has
  it modulo \<open>2 ^ 16\<close> at every precision). At precision 16 they store
  \<^verbatim>\<open>uint16(65536)\<close>, which is 0: after \<^verbatim>\<open>Clear\<close> of the estimator that \<^verbatim>\<open>New(16)\<close>
  returns, and after \<^verbatim>\<open>Merge\<close> of two such estimators, the count is 0 and all
  65536 registers are zero.
\<close>

theorem zero_count_wraps_at_16:
  "z (Clear fresh16) = 0 \<and> countZeros (reg (Clear fresh16)) = 65536
   \<and> snd (Merge fp fresh16 fresh16) = None
   \<and> z (fst (Merge fp fresh16 fresh16)) = 0
   \<and> countZeros (reg (fst (Merge fp fresh16 fresh16))) = 65536"
proof -
  have c1: "z (Clear fresh16) = 0" by (simp add: Clear_def fresh16_def)
  have c2: "countZeros (reg (Clear fresh16)) = 65536"
    by (simp add: Clear_def fresh16_def countZeros_replicate)
  have r: "map2 max (reg fresh16) (reg fresh16) = replicate 65536 0"
    by (simp add: fresh16_def map2_max_replicate)
  note mg = Merge_valid [OF valid_fresh16 valid_fresh16 refl, of fp]
  have m1: "snd (Merge fp fresh16 fresh16) = None" unfolding mg by simp
  have m2: "z (fst (Merge fp fresh16 fresh16)) = 0"
    unfolding mg r by (simp add: countZeros_replicate)
  have m3: "countZeros (reg (fst (Merge fp fresh16 fresh16))) = 65536"
    unfolding mg r by (simp add: countZeros_replicate)
  show ?thesis using c1 c2 m1 m2 m3 by blast
qed

section \<open>Reachable estimators\<close>

lemma New_Inr_valid:
  assumes "New prec = Inr h"
  shows "valid h \<and> p h = prec"
proof -
  have n: "\<not> (prec > 16 \<or> prec < 4)" using assms by (auto simp: New_def split: if_splits)
  then have "4 \<le> prec" "prec \<le> 16" by auto
  from New_valid [OF this] assms show ?thesis by auto
qed

lemma Add_preserves_valid: "valid h \<Longrightarrow> valid (fst (Add fp h x))"
  by (auto simp: Add_def Let_def valid_def)

lemma Add_precision: "p (fst (Add fp h x)) = p h"
  by (auto simp: Add_def Let_def)

lemma Clear_preserves_valid: "valid h \<Longrightarrow> valid (Clear h)"
  by (simp add: Clear_def valid_def)

lemma Merge_mismatch: "p h \<noteq> p other \<Longrightarrow> fst (Merge fp h other) = h"
  by (simp add: Merge_def)

lemma Merge_precision:
  assumes "valid h" "valid other"
  shows "p (fst (Merge fp h other)) = p h"
proof (cases "p h = p other")
  case True
  show ?thesis unfolding Merge_valid [OF assms True] by simp
next
  case False
  then show ?thesis by (simp add: Merge_mismatch)
qed

lemma reachable_valid: "reachable fp h \<Longrightarrow> valid h"
proof (induction rule: reachable.induct)
  case (reach_New prec h)
  then show ?case using New_Inr_valid by blast
next
  case (reach_Add h x)
  then show ?case by (simp add: Add_preserves_valid)
next
  case (reach_Merge h other)
  show ?case
  proof (cases "p h = p other")
    case True
    then show ?thesis using reach_Merge.IH by (simp add: Merge_preserves_valid)
  next
    case False
    then show ?thesis using reach_Merge.IH by (simp add: Merge_mismatch)
  qed
next
  case (reach_Clear h)
  then show ?case by (simp add: Clear_preserves_valid)
qed

lemma zero_count_below_16:
  "reachable fp h \<Longrightarrow> p h \<le> 15 \<Longrightarrow> unat (z h) = countZeros (reg h)"
proof (induction rule: reachable.induct)
  case (reach_New prec h)
  have ph: "valid h \<and> p h = prec" using reach_New.hyps by (rule New_Inr_valid)
  then have "4 \<le> prec" "prec \<le> 15" using reach_New.prems by (auto simp: valid_def)
  from New_below_16 [OF this] reach_New.hyps show ?case by auto
next
  case (reach_Add h x)
  then show ?case by (simp add: Add_zero_count Add_precision)
next
  case (reach_Merge h other)
  have v: "valid h" "valid other"
    using reach_Merge.hyps by (simp_all add: reachable_valid)
  have ph: "p h \<le> 15" using reach_Merge.prems Merge_precision [OF v, of fp] by simp
  show ?case
  proof (cases "p h = p other")
    case True
    show ?thesis by (rule Merge_zero_count [OF v True ph])
  next
    case False
    then show ?thesis using reach_Merge.IH(1) ph by (simp add: Merge_mismatch)
  qed
next
  case (reach_Clear h)
  have "p (Clear h) = p h" by (simp add: Clear_def)
  then show ?case using reach_Clear by (simp add: Clear_zero_count reachable_valid)
qed

text \<open>
  At every precision, the zero-register count of a reachable estimator is the
  number of its zero registers cut to 16 bits.
\<close>

lemma Add_zero_count_word:
  assumes "z h = of_nat (countZeros (reg h))"
  shows "z (fst (Add fp h x)) = of_nat (countZeros (reg (fst (Add fp h x))))"
proof -
  let ?i = "unat (eb32 x 32 (32 - p h))"
  let ?r = "clz32 (push_bit (unat (p h)) x OR push_bit (unat (p h - 1)) 1) + 1"
  have nz: "?r \<noteq> 0" by (rule rank_nonzero)
  show ?thesis
  proof (cases "?i < length (reg h) \<and> ?r > reg h ! ?i")
    case False
    then show ?thesis using assms by (auto simp: Add_def Let_def)
  next
    case True
    then have lt: "?i < length (reg h)" by simp
    note upd = countZeros_update [OF lt nz]
    show ?thesis
    proof (cases "reg h ! ?i = 0")
      case zero: True
      then have "0 < countZeros (reg h)" using lt by (intro countZeros_pos)
      then have "(of_nat (countZeros (reg h) - 1) :: uint16) = of_nat (countZeros (reg h)) - 1"
        by (simp add: of_nat_diff)
      then show ?thesis using zero True upd assms by (simp add: Add_def Let_def)
    next
      case False
      then show ?thesis using True upd assms by (simp add: Add_def Let_def)
    qed
  qed
qed

lemma zero_count_word:
  "reachable fp h \<Longrightarrow> z h = of_nat (countZeros (reg h))"
proof (induction rule: reachable.induct)
  case (reach_New prec h)
  have n: "\<not> (prec > 16 \<or> prec < 4)" using reach_New by (auto simp: New_def split: if_splits)
  show ?case using reach_New unfolding New_Inr [OF n]
    by (auto simp: countZeros_replicate)
next
  case (reach_Add h x)
  then show ?case by (simp add: Add_zero_count_word)
next
  case (reach_Merge h other)
  have v: "valid h" "valid other"
    using reach_Merge.hyps by (simp_all add: reachable_valid)
  show ?case
  proof (cases "p h = p other")
    case True
    show ?thesis unfolding Merge_valid [OF v True] by simp
  next
    case False
    then show ?thesis using reach_Merge.IH(1) by (simp add: Merge_mismatch)
  qed
next
  case (reach_Clear h)
  show ?case by (simp add: Clear_def countZeros_replicate)
qed

section \<open>Encoding and decoding\<close>

lemma be_value_snoc: "be_value (bs @ [b]) = be_value bs * 256 + unat b"
  by (simp add: be_value_def)

lemma unat_of_nat_byte: "n < 256 \<Longrightarrow> unat (of_nat n :: uint8) = n"
  by (simp add: unat_of_nat)

lemma be_value_be_bytes: "be_value (be_bytes n) = n"
proof (induction n rule: be_bytes.induct)
  case (1 n)
  show ?case
  proof (cases "n = 0")
    case True
    then show ?thesis by (simp add: be_bytes.simps [of 0] be_value_def)
  next
    case False
    have "be_value (be_bytes n) = be_value (be_bytes (n div 256)) * 256 + unat (of_nat (n mod 256) :: uint8)"
      using False by (subst be_bytes.simps) (simp add: be_value_snoc)
    also have "\<dots> = n div 256 * 256 + n mod 256"
      using 1 [OF False] by (simp add: unat_of_nat_byte)
    finally show ?thesis by simp
  qed
qed

lemma length_be_bytes_le: "n < 256 ^ k \<Longrightarrow> length (be_bytes n) \<le> k"
proof (induction k arbitrary: n)
  case 0
  then show ?case by (simp add: be_bytes.simps [of 0])
next
  case (Suc k)
  show ?case
  proof (cases "n = 0")
    case True
    then show ?thesis by (simp add: be_bytes.simps [of 0])
  next
    case False
    have "n div 256 < 256 ^ k" using Suc.prems by (simp add: less_mult_imp_div_less)
    then have "length (be_bytes (n div 256)) \<le> k" by (rule Suc.IH)
    then show ?thesis using False by (subst be_bytes.simps) simp
  qed
qed

lemma length_be_bytes_pos: "0 < n \<Longrightarrow> 0 < length (be_bytes n)"
  by (subst be_bytes.simps) simp

lemma length_be_bytes_64:
  assumes "x < 2 ^ 64"
  shows "length (be_bytes x) \<le> 8"
proof -
  have "(2::nat) ^ 64 = 256 ^ 8" by simp
  then show ?thesis using assms length_be_bytes_le [of x 8] by simp
qed

lemma length_encodeUint: "x < 2 ^ 64 \<Longrightarrow> length (encodeUint x) \<le> 9"
  using length_be_bytes_64 [of x] by (simp add: encodeUint_def)

lemma decodeUint_long:
  assumes "\<not> b \<le> 0x7f" "256 - unat b = length bs" "length bs \<le> 8"
  shows "decodeUint (b # bs @ rest) = Inr (be_value bs, rest)"
  using assms by (simp add: decodeUint_def Let_def)

lemma decodeUint_encodeUint:
  assumes "x < 2 ^ 64"
  shows "decodeUint (encodeUint x @ rest) = Inr (x, rest)"
proof (cases "x \<le> 127")
  case True
  then have "unat (of_nat x :: uint8) = x" by (simp add: unat_of_nat)
  then have "(of_nat x :: uint8) \<le> 0x7f" using True by (simp add: word_le_nat_alt)
  then show ?thesis using True \<open>unat (of_nat x :: uint8) = x\<close>
    by (simp add: decodeUint_def encodeUint_def)
next
  case False
  let ?bs = "be_bytes x"
  let ?b = "of_nat (256 - length ?bs) :: uint8"
  have le: "length ?bs \<le> 8" using assms by (rule length_be_bytes_64)
  have pos: "0 < length ?bs" using False by (intro length_be_bytes_pos) simp
  have u: "unat ?b = 256 - length ?bs" using pos by (simp add: unat_of_nat)
  have big: "\<not> ?b \<le> 0x7f" using u le by (simp add: word_le_nat_alt)
  have n: "256 - unat ?b = length ?bs" using u le by simp
  have "decodeUint (?b # ?bs @ rest) = Inr (be_value ?bs, rest)"
    by (rule decodeUint_long [OF big n le])
  then show ?thesis using False by (simp add: encodeUint_def be_value_be_bytes)
qed

lemma tooBig_lt: "n < tooBig \<Longrightarrow> n < 2 ^ 64"
  by (simp add: tooBig_def)

lemma recvMessage_writeMessage:
  assumes "writeMessage msg = Inr b"
  shows "recvMessage (b @ rest) = Inr (msg, rest)"
proof -
  have small: "length msg < tooBig" using assms by (simp add: writeMessage_def split: if_splits)
  have b: "b = encodeUint (length msg) @ msg" using assms by (simp add: writeMessage_def split: if_splits)
  have "decodeUint (encodeUint (length msg) @ (msg @ rest)) = Inr (length msg, msg @ rest)"
    by (rule decodeUint_encodeUint [OF tooBig_lt [OF small]])
  then show ?thesis using small by (simp add: recvMessage_def b)
qed

lemma decodeUint_small: "decodeUint (encodeUint 6 @ rest) = Inr (6, rest)"
  "decodeUint (encodeUint 10 @ rest) = Inr (10, rest)"
  "decodeUint (encodeUint 0 @ rest) = Inr (0, rest)"
  by (simp_all add: decodeUint_encodeUint)

lemma decodeSingle_tUint:
  assumes "writeMessage (encodeInt tUint @ encodeUint 0 @ body) = Inr b"
  shows "decodeSingle tUint (b @ rest) = Inr (body, rest)"
  unfolding decodeSingle_def recvMessage_writeMessage [OF assms]
  by (simp add: encodeInt_def tUint_def decodeUint_small toInt_def)

lemma decodeSingle_tBytes:
  assumes "writeMessage (encodeInt tBytes @ encodeUint 0 @ body) = Inr b"
  shows "decodeSingle tBytes (b @ rest) = Inr (body, rest)"
  unfolding decodeSingle_def recvMessage_writeMessage [OF assms]
  by (simp add: encodeInt_def tBytes_def decodeUint_small toInt_def)

lemma length_encodeInt: "length (encodeInt tUint) = 1" "length (encodeInt tBytes) = 1"
  "length (encodeUint 0) = 1"
  by (simp_all add: encodeInt_def tUint_def tBytes_def encodeUint_def)

lemma encodeUintValue_Inr:
  assumes "v < 2 ^ 64"
  shows "\<exists>b. encodeUintValue v = Inr b"
proof -
  have "length (encodeInt tUint @ encodeUint 0 @ encodeUint v) \<le> 11"
    using length_encodeUint [OF assms] by (simp add: length_encodeInt)
  then have "length (encodeInt tUint @ encodeUint 0 @ encodeUint v) < tooBig"
    by (simp add: tooBig_def)
  then show ?thesis by (simp add: encodeUintValue_def writeMessage_def)
qed

lemma decUint_encodeUintValue:
  assumes "encodeUintValue v = Inr b" "v < 2 ^ bits" "bits \<le> 64"
  shows "decUint bits (b @ rest) = Inr (v, rest)"
proof -
  have "(2::nat) ^ bits \<le> 2 ^ 64" using assms(3) by (rule power_increasing) simp
  then have v: "v < 2 ^ 64" using assms(2) by simp
  have d: "decodeUint (encodeUint v) = Inr (v, [])"
    using decodeUint_encodeUint [OF v, of "[]"] by simp
  have "\<not> 2 ^ bits - 1 < v" using assms(2) by simp
  then show ?thesis
    unfolding decUint_def decodeSingle_tUint [OF assms(1) [unfolded encodeUintValue_def]]
    by (simp add: d)
qed

lemma encodeBytes_Inr:
  assumes "length bs + 11 < tooBig"
  shows "\<exists>b. encodeBytes bs = Inr b"
proof -
  have "length bs < 2 ^ 64" using assms by (simp add: tooBig_def)
  then have "length (encodeInt tBytes @ encodeUint 0 @ encodeUint (length bs) @ bs) \<le> 11 + length bs"
    using length_encodeUint [of "length bs"] by (simp add: length_encodeInt)
  then have "length (encodeInt tBytes @ encodeUint 0 @ encodeUint (length bs) @ bs) < tooBig"
    using assms by simp
  then show ?thesis by (simp add: encodeBytes_def writeMessage_def)
qed

lemma decUint8Slice_encodeBytes:
  assumes "encodeBytes bs = Inr b"
  shows "decUint8Slice (b @ rest) = Inr (bs, rest)"
proof -
  have "length (encodeInt tBytes @ encodeUint 0 @ encodeUint (length bs) @ bs) < tooBig"
    using assms by (simp add: encodeBytes_def writeMessage_def split: if_splits)
  then have small: "length bs < tooBig" by simp
  have d: "decodeUint (encodeUint (length bs) @ bs) = Inr (length bs, bs)"
    by (rule decodeUint_encodeUint [OF tooBig_lt [OF small]])
  show ?thesis
    unfolding decUint8Slice_def decodeSingle_tBytes [OF assms [unfolded encodeBytes_def]]
    using small by (simp add: d)
qed

lemma GobDecode_GobEncode:
  assumes "GobEncode h = Inr b"
  shows "GobDecode h0 b = (h, None)"
proof -
  obtain b1 where e1: "encodeBytes (reg h) = Inr b1"
    using assms by (auto simp: GobEncode_def split: sum.splits)
  obtain b2 where e2: "encodeUintValue (unat (m h)) = Inr b2"
    using assms by (auto simp: GobEncode_def split: sum.splits)
  obtain b3 where e3: "encodeUintValue (unat (p h)) = Inr b3"
    using assms by (auto simp: GobEncode_def split: sum.splits)
  obtain b4 where e4: "encodeUintValue (unat (c h)) = Inr b4"
    using assms by (auto simp: GobEncode_def split: sum.splits)
  obtain b5 where e5: "encodeUintValue (unat (z h)) = Inr b5"
    using assms by (auto simp: GobEncode_def split: sum.splits)
  have b: "b = b1 @ b2 @ b3 @ b4 @ b5"
    using assms by (simp add: GobEncode_def e1 e2 e3 e4 e5)
  have um: "unat (m h) < 2 ^ 32" using unsigned_less [of "m h"] by simp
  have up: "unat (p h) < 2 ^ 8" using unsigned_less [of "p h"] by simp
  have uc: "unat (c h) < 2 ^ 64" using unsigned_less [of "c h"] by simp
  have uz: "unat (z h) < 2 ^ 16" using unsigned_less [of "z h"] by simp
  have d1: "decUint8Slice (b1 @ b2 @ b3 @ b4 @ b5) = Inr (reg h, b2 @ b3 @ b4 @ b5)"
    by (rule decUint8Slice_encodeBytes [OF e1])
  have d2: "decUint 32 (b2 @ b3 @ b4 @ b5) = Inr (unat (m h), b3 @ b4 @ b5)"
    by (rule decUint_encodeUintValue [OF e2 um]) simp
  have d3: "decUint 8 (b3 @ b4 @ b5) = Inr (unat (p h), b4 @ b5)"
    by (rule decUint_encodeUintValue [OF e3 up]) simp
  have d4: "decUint 64 (b4 @ b5) = Inr (unat (c h), b5)"
    by (rule decUint_encodeUintValue [OF e4 uc]) simp
  have d5: "decUint 16 b5 = Inr (unat (z h), [])"
    using decUint_encodeUintValue [OF e5 uz, of "[]"] by simp
  show ?thesis
    unfolding GobDecode_def b d1 by (simp add: d2 d3 d4 d5 Let_def)
qed

lemma GobEncode_Inr:
  assumes "length (reg h) + 11 < tooBig"
  shows "\<exists>b. GobEncode h = Inr b"
proof -
  obtain b1 where e1: "encodeBytes (reg h) = Inr b1" using encodeBytes_Inr [OF assms] by blast
  have "unat (m h) < 2 ^ 32" using unsigned_less [of "m h"] by simp
  then have um: "unat (m h) < 2 ^ 64" by simp
  have "unat (p h) < 2 ^ 8" using unsigned_less [of "p h"] by simp
  then have up: "unat (p h) < 2 ^ 64" by simp
  have uc: "unat (c h) < 2 ^ 64" using unsigned_less [of "c h"] by simp
  have "unat (z h) < 2 ^ 16" using unsigned_less [of "z h"] by simp
  then have uz: "unat (z h) < 2 ^ 64" by simp
  obtain b2 where e2: "encodeUintValue (unat (m h)) = Inr b2" using encodeUintValue_Inr [OF um] by blast
  obtain b3 where e3: "encodeUintValue (unat (p h)) = Inr b3" using encodeUintValue_Inr [OF up] by blast
  obtain b4 where e4: "encodeUintValue (unat (c h)) = Inr b4" using encodeUintValue_Inr [OF uc] by blast
  obtain b5 where e5: "encodeUintValue (unat (z h)) = Inr b5" using encodeUintValue_Inr [OF uz] by blast
  show ?thesis by (simp add: GobEncode_def e1 e2 e3 e4 e5)
qed

lemma valid_small: "valid h \<Longrightarrow> length (reg h) + 11 < tooBig"
proof -
  assume v: "valid h"
  have "unat (p h) \<le> 16" using valid_p_bounds [OF v] by simp
  then have "(2::nat) ^ unat (p h) \<le> 2 ^ 16" by (rule power_increasing) simp
  then show ?thesis using valid_length [OF v] by (simp add: tooBig_def)
qed

lemma GobDecode_GobEncode_valid:
  assumes "valid h"
  shows "\<exists>b1 b2 b3 b4 b5.
           encodeBytes (reg h) = Inr b1
         \<and> encodeUintValue (unat (m h)) = Inr b2
         \<and> encodeUintValue (unat (p h)) = Inr b3
         \<and> encodeUintValue (unat (c h)) = Inr b4
         \<and> encodeUintValue (unat (z h)) = Inr b5
         \<and> GobEncode h = Inr (b1 @ b2 @ b3 @ b4 @ b5)
         \<and> GobDecode h0 (b1 @ b2 @ b3 @ b4 @ b5) = (h, None)"
proof -
  obtain b where b: "GobEncode h = Inr b"
    using GobEncode_Inr [OF valid_small [OF assms]] by blast
  obtain b1 where e1: "encodeBytes (reg h) = Inr b1"
    using b by (auto simp: GobEncode_def split: sum.splits)
  obtain b2 where e2: "encodeUintValue (unat (m h)) = Inr b2"
    using b by (auto simp: GobEncode_def split: sum.splits)
  obtain b3 where e3: "encodeUintValue (unat (p h)) = Inr b3"
    using b by (auto simp: GobEncode_def split: sum.splits)
  obtain b4 where e4: "encodeUintValue (unat (c h)) = Inr b4"
    using b by (auto simp: GobEncode_def split: sum.splits)
  obtain b5 where e5: "encodeUintValue (unat (z h)) = Inr b5"
    using b by (auto simp: GobEncode_def split: sum.splits)
  have cat: "GobEncode h = Inr (b1 @ b2 @ b3 @ b4 @ b5)"
    by (simp add: GobEncode_def e1 e2 e3 e4 e5)
  have "GobDecode h0 (b1 @ b2 @ b3 @ b4 @ b5) = (h, None)"
    by (rule GobDecode_GobEncode [OF cat])
  then show ?thesis using e1 e2 e3 e4 e5 cat by blast
qed

text \<open>
  C5. For every reachable estimator \<open>h\<close>, \<^verbatim>\<open>GobEncode\<close> succeeds and returns the
  encodings of the registers, \<open>m\<close>, the precision, the cached estimate and the
  zero-register count, one after the other in this order; and \<^verbatim>\<open>GobDecode\<close> of
  these bytes, into any receiver \<open>h0\<close>, returns \<^verbatim>\<open>nil\<close> and leaves the receiver
  equal to \<open>h\<close> in all five fields. (\<open>GobDecode_GobEncode_valid\<close> is the same for
  every well-formed estimator, and \<open>GobDecode_GobEncode\<close> for every estimator that
  \<^verbatim>\<open>GobEncode\<close> encodes at all.)
\<close>

theorem GobDecode_GobEncode_roundtrip:
  assumes "reachable fp h"
  shows "\<exists>b1 b2 b3 b4 b5.
           encodeBytes (reg h) = Inr b1
         \<and> encodeUintValue (unat (m h)) = Inr b2
         \<and> encodeUintValue (unat (p h)) = Inr b3
         \<and> encodeUintValue (unat (c h)) = Inr b4
         \<and> encodeUintValue (unat (z h)) = Inr b5
         \<and> GobEncode h = Inr (b1 @ b2 @ b3 @ b4 @ b5)
         \<and> GobDecode h0 (b1 @ b2 @ b3 @ b4 @ b5) = (h, None)
         \<and> reg (fst (GobDecode h0 (b1 @ b2 @ b3 @ b4 @ b5))) = reg h
         \<and> m (fst (GobDecode h0 (b1 @ b2 @ b3 @ b4 @ b5))) = m h
         \<and> p (fst (GobDecode h0 (b1 @ b2 @ b3 @ b4 @ b5))) = p h
         \<and> c (fst (GobDecode h0 (b1 @ b2 @ b3 @ b4 @ b5))) = c h
         \<and> z (fst (GobDecode h0 (b1 @ b2 @ b3 @ b4 @ b5))) = z h"
proof -
  have "valid h" using assms by (rule reachable_valid)
  from GobDecode_GobEncode_valid [OF this, of h0]
  obtain b1 b2 b3 b4 b5 where
    e: "encodeBytes (reg h) = Inr b1" "encodeUintValue (unat (m h)) = Inr b2"
       "encodeUintValue (unat (p h)) = Inr b3" "encodeUintValue (unat (c h)) = Inr b4"
       "encodeUintValue (unat (z h)) = Inr b5"
       "GobEncode h = Inr (b1 @ b2 @ b3 @ b4 @ b5)"
    and d: "GobDecode h0 (b1 @ b2 @ b3 @ b4 @ b5) = (h, None)"
    by blast
  have "encodeBytes (reg h) = Inr b1
         \<and> encodeUintValue (unat (m h)) = Inr b2
         \<and> encodeUintValue (unat (p h)) = Inr b3
         \<and> encodeUintValue (unat (c h)) = Inr b4
         \<and> encodeUintValue (unat (z h)) = Inr b5
         \<and> GobEncode h = Inr (b1 @ b2 @ b3 @ b4 @ b5)
         \<and> GobDecode h0 (b1 @ b2 @ b3 @ b4 @ b5) = (h, None)
         \<and> reg (fst (GobDecode h0 (b1 @ b2 @ b3 @ b4 @ b5))) = reg h
         \<and> m (fst (GobDecode h0 (b1 @ b2 @ b3 @ b4 @ b5))) = m h
         \<and> p (fst (GobDecode h0 (b1 @ b2 @ b3 @ b4 @ b5))) = p h
         \<and> c (fst (GobDecode h0 (b1 @ b2 @ b3 @ b4 @ b5))) = c h
         \<and> z (fst (GobDecode h0 (b1 @ b2 @ b3 @ b4 @ b5))) = z h"
    using e d by simp
  then show ?thesis by blast
qed

theorem GobDecode_GobEncode_roundtrip_witness:
  "reachable exact (fst (Add exact fresh4 0x12345678))
   \<and> (\<exists>b1 b2 b3 b4 b5.
           encodeBytes (reg (fst (Add exact fresh4 0x12345678))) = Inr b1
         \<and> encodeUintValue (unat (m (fst (Add exact fresh4 0x12345678)))) = Inr b2
         \<and> encodeUintValue (unat (p (fst (Add exact fresh4 0x12345678)))) = Inr b3
         \<and> encodeUintValue (unat (c (fst (Add exact fresh4 0x12345678)))) = Inr b4
         \<and> encodeUintValue (unat (z (fst (Add exact fresh4 0x12345678)))) = Inr b5
         \<and> GobEncode (fst (Add exact fresh4 0x12345678)) = Inr (b1 @ b2 @ b3 @ b4 @ b5)
         \<and> GobDecode fresh5 (b1 @ b2 @ b3 @ b4 @ b5) = (fst (Add exact fresh4 0x12345678), None)
         \<and> reg (fst (GobDecode fresh5 (b1 @ b2 @ b3 @ b4 @ b5))) = reg (fst (Add exact fresh4 0x12345678))
         \<and> m (fst (GobDecode fresh5 (b1 @ b2 @ b3 @ b4 @ b5))) = m (fst (Add exact fresh4 0x12345678))
         \<and> p (fst (GobDecode fresh5 (b1 @ b2 @ b3 @ b4 @ b5))) = p (fst (Add exact fresh4 0x12345678))
         \<and> c (fst (GobDecode fresh5 (b1 @ b2 @ b3 @ b4 @ b5))) = c (fst (Add exact fresh4 0x12345678))
         \<and> z (fst (GobDecode fresh5 (b1 @ b2 @ b3 @ b4 @ b5))) = z (fst (Add exact fresh4 0x12345678)))"
proof -
  have "New 4 = Inr fresh4" by (simp add: New_def fresh4_def)
  then have "reachable exact fresh4" by (rule reach_New)
  then have r: "reachable exact (fst (Add exact fresh4 0x12345678))" by (rule reach_Add)
  show ?thesis
    using r GobDecode_GobEncode_roundtrip [OF r, of fresh5] by blast
qed

lemmas gob_decode_defs =
  GobDecode_def decUint8Slice_def decUint_def decodeSingle_def recvMessage_def
  decodeUint_def toInt_def tooBig_def tBytes_def tUint_def






text \<open>
  Every state whose registers fit a message is what \<^verbatim>\<open>GobDecode\<close> leaves for some
  input: the encoding of that state.
\<close>

lemma GobDecode_any_state:
  assumes "length (reg h') + 11 < tooBig"
  shows "\<exists>b. GobDecode h b = (h', None)"
  using GobEncode_Inr [OF assms] GobDecode_GobEncode by blast

text \<open>
  C10. \<^verbatim>\<open>GobDecode\<close> checks nothing about the snapshot it has decoded: the twenty
  bytes below are five well-formed messages (no registers, \<open>m = 1\<close>, precision 0,
  cached estimate 0, zero-register count 1), and decoding them into any receiver
  returns \<^verbatim>\<open>nil\<close> and leaves an estimator whose precision is below 4, whose
  register array is not of length \<open>m\<close>, and whose zero-register count is not the
  number of its zero registers.
\<close>

theorem GobDecode_accepts_inconsistent:
  "GobDecode h [3, 10, 0, 0, 3, 6, 0, 1, 3, 6, 0, 0, 3, 6, 0, 0, 3, 6, 0, 1] = (inconsistent, None)
   \<and> \<not> valid inconsistent
   \<and> p inconsistent < 4
   \<and> length (reg inconsistent) \<noteq> unat (m inconsistent)
   \<and> unat (z inconsistent) \<noteq> countZeros (reg inconsistent)"
  by (cases h) (simp add: gob_decode_defs inconsistent_def valid_def countZeros_def)

end
